theory Spec2Isabelle
  imports Main "HOL-Library.Word"
begin

section \<open>Disk control (src/libretro/src/disk_control.cpp)\<close>

subsection \<open>Data\<close>

text \<open>
  A \<^verbatim>\<open>std::filesystem::path\<close> is kept as its string in the generic (POSIX) format.
  \<^verbatim>\<open>unsigned int\<close> is a 32-bit word; \<^verbatim>\<open>std::vector::size()\<close> is a natural number
  that \<^verbatim>\<open>get_num_images\<close> converts to \<^verbatim>\<open>unsigned int\<close>.
\<close>

type_synonym path = string
type_synonym u32 = "32 word"
type_synonym u8 = "8 word"

text \<open>
  What a call can end in besides returning: \<^verbatim>\<open>std::vector::at\<close> throws
  \<^verbatim>\<open>std::out_of_range\<close>, and \<^verbatim>\<open>label[len - 1] = '\0'\<close> with \<^verbatim>\<open>len = 0\<close> writes
  outside the buffer.
\<close>

datatype fault = std_out_of_range | write_out_of_bounds

datatype 'a outcome = Returns 'a | Throws fault

text \<open>
  The emulated DOS machine is outside this file. Every call into it is recorded, in
  order, together with the lines written to the log.
\<close>

datatype log_level = LogDebug | LogWarn | LogError

datatype log_arg = Str string | Num nat | Chr char | Path path | Msg string

datatype dos_call =
    file_size_query path
  | new_fatDrive path
  | new_isoDrive char path u8
  | MSCDEX_SetCDInterface
  | AppendDisk int
  | InitializeDrive int
  | mem_writeb_mediaid int u8
  | dos_dta_tempdta
  | EmptyCache_all_drives
  | CycleDisks int bool
  | UnmountDrive int
  | Drives_assign_nullptr int

datatype event = Log log_level string "log_arg list" | Dos dos_call

text \<open>
  \<^verbatim>\<open>namespace state\<close>: the image list, the current index and the ejected flag; \<open>trace\<close>
  holds the events so far, oldest first.
\<close>

record world =
  images :: "path list"
  current_index :: u32
  is_ejected :: bool
  trace :: "event list"

text \<open>
  What the collaborators answer during one call: \<^verbatim>\<open>control->SecureMode()\<close>,
  \<^verbatim>\<open>std::filesystem::file_size\<close> (\<open>Inl\<close> is the \<^verbatim>\<open>what()\<close> of the exception it
  throws), \<^verbatim>\<open>fatDrive::created_successfully\<close>, the \<^verbatim>\<open>error\<close> that the \<^verbatim>\<open>isoDrive\<close>
  constructor sets, and whether \<^verbatim>\<open>Drives[i]\<close> is non-null.
\<close>

record env =
  SecureMode :: bool
  file_size :: "path \<Rightarrow> string + nat"
  created_successfully :: "path \<Rightarrow> bool"
  iso_error :: "path \<Rightarrow> int"
  Drives_present :: "int \<Rightarrow> bool"

definition initial_world :: world where
  "initial_world = \<lparr>images = [], current_index = 0, is_ejected = False, trace = []\<rparr>"

subsection \<open>Library functions the code calls\<close>

definition emit :: "event \<Rightarrow> world \<Rightarrow> world" where
  "emit ev w = w\<lparr>trace := trace w @ [ev]\<rparr>"

definition logDebug :: "string \<Rightarrow> log_arg list \<Rightarrow> world \<Rightarrow> world" where
  "logDebug fmt args w = emit (Log LogDebug fmt args) w"

definition logWarn :: "string \<Rightarrow> log_arg list \<Rightarrow> world \<Rightarrow> world" where
  "logWarn fmt args w = emit (Log LogWarn fmt args) w"

definition logError :: "string \<Rightarrow> log_arg list \<Rightarrow> world \<Rightarrow> world" where
  "logError fmt args w = emit (Log LogError fmt args) w"

definition dos :: "dos_call \<Rightarrow> world \<Rightarrow> world" where
  "dos c w = emit (Dos c) w"

text \<open>\<^verbatim>\<open>std::vector::at\<close>, read and written.\<close>

definition at :: "'a list \<Rightarrow> nat \<Rightarrow> fault + 'a" where
  "at xs i = (if i < length xs then Inr (xs ! i) else Inl std_out_of_range)"

definition assign_at :: "'a list \<Rightarrow> nat \<Rightarrow> 'a \<Rightarrow> fault + 'a list" where
  "assign_at xs i v = (if i < length xs then Inr (xs[i := v]) else Inl std_out_of_range)"

text \<open>\<^verbatim>\<open>v.erase(v.begin() + i)\<close> for \<open>i\<close> within the vector.\<close>

definition erase :: "'a list \<Rightarrow> nat \<Rightarrow> 'a list" where
  "erase xs i = take i xs @ drop (Suc i) xs"

text \<open>
  \<^verbatim>\<open>path::filename()\<close> and \<^verbatim>\<open>path::extension()\<close> as the C++ standard defines them for
  the generic format: the file name is what follows the last \<^verbatim>\<open>/\<close>; the extension starts
  at the last period of the file name, unless the file name is \<^verbatim>\<open>.\<close> or \<^verbatim>\<open>..\<close>, has no
  period, or its only period is its first character.
\<close>

definition path_filename :: "path \<Rightarrow> string" where
  "path_filename p = rev (takeWhile (\<lambda>c. c \<noteq> CHR ''/'') (rev p))"

definition path_extension :: "path \<Rightarrow> string" where
  "path_extension p =
     (let f = path_filename p in
      if f = ''.'' \<or> f = ''..'' then []
      else (case dropWhile (\<lambda>c. c \<noteq> CHR ''.'') (rev f) of
              [] \<Rightarrow> []
            | d # stem \<Rightarrow>
                if stem = [] then []
                else d # rev (takeWhile (\<lambda>c. c \<noteq> CHR ''.'') (rev f))))"

text \<open>
  Modelled from the spec: \<^verbatim>\<open>lower_case\<close> is declared in util.h, which is not among the
  sources. It is taken to map the letters A to Z to a to z and to keep every other
  character, which is what the extension tests of \<^verbatim>\<open>mount\<close> and \<^verbatim>\<open>unmount\<close> rely on.
\<close>

definition lower_char :: "char \<Rightarrow> char" where
  "lower_char c =
     (let n = (of_char c :: nat) in if 65 \<le> n \<and> n \<le> 90 then char_of (n + 32) else c)"

definition lower_case :: "string \<Rightarrow> string" where
  "lower_case s = map lower_char s"

text \<open>\<^verbatim>\<open>drive_letter - 'A'\<close>, computed in \<^verbatim>\<open>int\<close>.\<close>

definition drive_index :: "char \<Rightarrow> int" where
  "drive_index drive_letter = int (of_char drive_letter) - int (of_char CHR ''A'')"

subsection \<open>The callbacks of \<^verbatim>\<open>namespace cb\<close>\<close>

definition get_num_images :: "world \<Rightarrow> u32" where
  "get_num_images w = of_nat (length (images w))"

definition get_eject_state :: "world \<Rightarrow> bool" where
  "get_eject_state w = is_ejected w"

definition get_image_index :: "world \<Rightarrow> u32" where
  "get_image_index w = current_index w"

definition set_image_index :: "u32 \<Rightarrow> world \<Rightarrow> bool \<times> world" where
  "set_image_index index w =
     (if index \<ge> get_num_images w then (False, w)
      else (True, logDebug ''Disk index {}.'' [Num (unat index)] (w\<lparr>current_index := index\<rparr>)))"

definition add_image_index :: "world \<Rightarrow> bool \<times> world" where
  "add_image_index w =
     (let w1 = w\<lparr>images := images w @ [[]]\<rparr>
      in (True, logDebug ''Disk count {}.'' [Num (unat (get_num_images w1))] w1))"

text \<open>\<open>info\<close> is \<open>None\<close> for \<^verbatim>\<open>nullptr\<close> and \<open>Some p\<close> when \<^verbatim>\<open>info->path\<close> is \<open>p\<close>.\<close>

definition replace_image_index :: "u32 \<Rightarrow> path option \<Rightarrow> world \<Rightarrow> bool outcome \<times> world" where
  "replace_image_index index info w =
     (if index \<ge> get_num_images w
      then (Returns False,
            logWarn ''Frontend tried to replace invalid disk index {}.'' [Num (unat index)] w)
      else (case info of
              None \<Rightarrow>
                (let w1 = w\<lparr>images := erase (images w) (unat index)\<rparr>
                 in if get_image_index w1 \<ge> get_num_images w1 \<and> get_num_images w1 > 0
                    then (Returns True, snd (set_image_index (get_num_images w1 - 1) w1))
                    else (Returns True, w1))
            | Some p \<Rightarrow>
                (case assign_at (images w) (unat index) p of
                   Inl x \<Rightarrow> (Throws x, w)
                 | Inr imgs \<Rightarrow> (Returns True, w\<lparr>images := imgs\<rparr>))))"

text \<open>
  The label buffer is returned as the C string it holds afterwards (\<open>None\<close> when it was
  not written): \<^verbatim>\<open>strncpy\<close> copies at most \<open>len\<close> characters of the file name up to its
  first NUL, and \<^verbatim>\<open>label[len - 1] = '\0'\<close> cuts the result to \<open>len - 1\<close> characters.
\<close>

definition get_image_label :: "u32 \<Rightarrow> nat \<Rightarrow> world \<Rightarrow> (bool \<times> string option) outcome" where
  "get_image_label index len w =
     (if index > get_num_images w then Returns (False, None)
      else (case at (images w) (unat index) of
              Inl x \<Rightarrow> Throws x
            | Inr p \<Rightarrow>
                if len = 0 then Throws write_out_of_bounds
                else Returns (True,
                  Some (take (len - 1) (takeWhile (\<lambda>c. c \<noteq> CHR 0x00) (path_filename p))))))"

subsection \<open>Mounting and unmounting\<close>

definition mount_floppy_image :: "env \<Rightarrow> char \<Rightarrow> path \<Rightarrow> world \<Rightarrow> bool \<times> world" where
  "mount_floppy_image e drive_letter p w =
     (let media_id = (0xF0 :: u8); w1 = dos (file_size_query p) w in
      case file_size e p of
        Inl what \<Rightarrow> (False, logError ''Failed to detect image file size: {}.'' [Str what] w1)
      | Inr sz \<Rightarrow>
          if sz > 2880 * 1024
          then (False, logError ''Mounting HDD images is currently not supported.'' [] w1)
          else
            let w2 = dos (new_fatDrive p) w1 in
            if \<not> created_successfully e p
            then (False, logError ''Failed to mount drive {} as {}.'' [Chr drive_letter, Path p] w2)
            else
              let w3 = dos (AppendDisk (drive_index drive_letter)) w2;
                  w4 = dos (InitializeDrive (drive_index drive_letter)) w3;
                  w5 = dos (mem_writeb_mediaid (drive_index drive_letter * 9) media_id) w4;
                  w6 = dos dos_dta_tempdta w5
              in (True, logDebug ''Drive {} is mounted as {}.'' [Chr drive_letter, Path p] w6))"

definition mount_cd_image :: "env \<Rightarrow> char \<Rightarrow> path \<Rightarrow> world \<Rightarrow> bool \<times> world" where
  "mount_cd_image e drive_letter p w =
     (let media_id = (0xF8 :: u8);
          w1 = dos MSCDEX_SetCDInterface w;
          w2 = dos (new_isoDrive drive_letter p media_id) w1;
          error = iso_error e p
      in if error = 0 then
           (let w3 = dos (AppendDisk (drive_index drive_letter)) w2;
                w4 = dos (InitializeDrive (drive_index drive_letter)) w3
            in (True, dos (mem_writeb_mediaid (drive_index drive_letter * 9) media_id) w4))
         else if error = 1 then (False, logError ''{}'' [Msg ''MSCDEX_ERROR_MULTIPLE_CDROMS''] w2)
         else if error = 2 then (False, logError ''{}'' [Msg ''MSCDEX_ERROR_NOT_SUPPORTED''] w2)
         else if error = 3 then (False, logError ''{}'' [Msg ''MSCDEX_ERROR_OPEN''] w2)
         else if error = 4 then (False, logError ''{}'' [Msg ''MSCDEX_TOO_MANY_DRIVES''] w2)
         else if error = 5 then (False, logError ''{}'' [Msg ''MSCDEX_LIMITED_SUPPORT''] w2)
         else if error = 6 then (False, logError ''{}'' [Msg ''MSCDEX_INVALID_FILEFORMAT''] w2)
         else (False, logError ''{}'' [Msg ''MSCDEX_UNKNOWN_ERROR''] w2))"

text \<open>
  \<^verbatim>\<open>disk_control::mount\<close>. The middle \<^verbatim>\<open>case\<close> is the \<^verbatim>\<open>if\<close> chain on the lower-cased
  extension: it yields the drive letter and what the image mounter returned, or \<open>None\<close>
  in the \<^verbatim>\<open>else\<close> branch.
\<close>

definition mount :: "env \<Rightarrow> path \<Rightarrow> world \<Rightarrow> bool outcome \<times> world" where
  "mount e img w =
     (if SecureMode e
      then (Returns False, logError ''Mounting is not permitted in secure mode.'' [] w)
      else
        let extension = lower_case (path_extension img) in
        case (if extension = ''.img''
              then Some (CHR ''A'',
                     mount_floppy_image e CHR ''A'' img
                       (logDebug ''Mounting disk as floppy {}.'' [Path img] w))
              else if extension = ''.iso'' \<or> extension = ''.cue''
              then Some (CHR ''D'',
                     mount_cd_image e CHR ''D'' img
                       (logDebug ''Mounting disk as cdrom {}.'' [Path img] w))
              else None) of
          None \<Rightarrow>
            (Returns False,
             logError ''Unsupported disk image {}.'' [Path (path_extension img)] w)
        | Some (drive_letter, mounted_ok, w1) \<Rightarrow>
            if \<not> mounted_ok then (Returns False, w1)
            else
              let w2 = dos EmptyCache_all_drives w1;
                  w3 = dos (CycleDisks (drive_index drive_letter) True) w2;
                  w4 = logDebug ''Drive {} is mounted as {}.'' [Chr drive_letter, Path img] w3
              in if get_num_images w4 = 0
                 then (let w5 = snd (add_image_index w4) in
                       case assign_at (images w5) 0 img of
                         Inl x \<Rightarrow> (Throws x, w5)
                       | Inr imgs \<Rightarrow> (Returns mounted_ok, w5\<lparr>images := imgs\<rparr>))
                 else (Returns mounted_ok, w4))"

definition unmount :: "env \<Rightarrow> path \<Rightarrow> world \<Rightarrow> bool \<times> world" where
  "unmount e p w =
     (if get_num_images w = 0 then (False, logWarn ''No disks added to index.'' [] w)
      else
        let extension = lower_case (path_extension p) in
        case (if extension = ''.img''
              then Some (CHR ''A'', logDebug ''Unmounting floppy {}.'' [Path p] w)
              else if extension = ''.iso'' \<or> extension = ''.cue''
              then Some (CHR ''D'', logDebug ''Umounting cdrom {}.'' [Path p] w)
              else None) of
          None \<Rightarrow> (False, logError ''Unsupported disk image {}.'' [Path (path_extension p)] w)
        | Some (drive_letter, w1) \<Rightarrow>
            let w2 = (if Drives_present e (drive_index drive_letter)
                      then dos (UnmountDrive (drive_index drive_letter)) w1 else w1);
                w3 = dos (Drives_assign_nullptr (drive_index drive_letter)) w2
            in (True, dos (CycleDisks (drive_index drive_letter) True) w3))"

definition set_eject_state :: "env \<Rightarrow> bool \<Rightarrow> world \<Rightarrow> bool outcome \<times> world" where
  "set_eject_state e ejected w =
     (let w1 = logDebug ''Tray {}.'' [Str (if ejected then ''open'' else ''close'')]
                 (w\<lparr>is_ejected := ejected\<rparr>)
      in if get_num_images w1 = 0 then (Returns True, w1)
         else (case at (images w1) (unat (get_image_index w1)) of
                 Inl x \<Rightarrow> (Throws x, w1)
               | Inr p \<Rightarrow>
                   if ejected then (let (r, w2) = unmount e p w1 in (Returns r, w2))
                   else mount e p w1))"

subsection \<open>Example registries\<close>

definition one_image :: world where
  "one_image = initial_world\<lparr>images := [''game.img'']\<rparr>"

definition two_images :: world where
  "two_images = initial_world\<lparr>images := [''a.img'', ''b.iso'']\<rparr>"

definition two_images_second :: world where
  "two_images_second = two_images\<lparr>current_index := 1\<rparr>"

definition one_image_ejected :: world where
  "one_image_ejected = one_image\<lparr>is_ejected := True\<rparr>"

subsection \<open>Example answers of the collaborators\<close>

text \<open>
  Not in secure mode, every image is a 1440 KiB file that both drive classes accept,
  and every drive slot is occupied.
\<close>

definition env_ok :: env where
  "env_ok = \<lparr>SecureMode = False, file_size = (\<lambda>p. Inr 1474560),
     created_successfully = (\<lambda>p. True), iso_error = (\<lambda>p. 0),
     Drives_present = (\<lambda>i. True)\<rparr>"

definition env_secure :: env where
  "env_secure = env_ok\<lparr>SecureMode := True\<rparr>"

definition env_missing_file :: env where
  "env_missing_file = env_ok\<lparr>file_size := (\<lambda>p. Inl ''No such file or directory'')\<rparr>"

subsection \<open>Observers\<close>

text \<open>Two worlds with the same image list, current index and ejected flag.\<close>

definition same_registry :: "world \<Rightarrow> world \<Rightarrow> bool" where
  "same_registry w w' \<longleftrightarrow>
     images w' = images w \<and> current_index w' = current_index w \<and>
     is_ejected w' = is_ejected w"

text \<open>The drive slots that \<^verbatim>\<open>DriveManager::AppendDisk\<close> was called for, in order.\<close>

definition appended_drives :: "event list \<Rightarrow> int list" where
  "appended_drives evs = [d. Dos (AppendDisk d) \<leftarrow> evs]"

text \<open>The events that a call added: those of \<open>w'\<close> after the ones \<open>w\<close> already had.\<close>

definition new_events :: "world \<Rightarrow> world \<Rightarrow> event list" where
  "new_events w w' = drop (length (trace w)) (trace w')"

subsection \<open>Sequences of disk-control operations\<close>

text \<open>
  The operations of the disk control that change its state, each with the arguments the
  frontend passes. A run takes them in order, each with the collaborators' answers at
  that moment, and stops at the first call that throws.
\<close>

datatype disk_op =
    Add_image_index
  | Set_image_index u32
  | Replace_image_index u32 "path option"
  | Set_eject_state bool
  | Mount path

definition exec :: "env \<Rightarrow> disk_op \<Rightarrow> world \<Rightarrow> bool outcome \<times> world" where
  "exec e oper w =
     (case oper of
        Add_image_index \<Rightarrow> (let (r, w') = add_image_index w in (Returns r, w'))
      | Set_image_index i \<Rightarrow> (let (r, w') = set_image_index i w in (Returns r, w'))
      | Replace_image_index i info \<Rightarrow> replace_image_index i info w
      | Set_eject_state ejected \<Rightarrow> set_eject_state e ejected w
      | Mount p \<Rightarrow> mount e p w)"

fun run :: "(env \<times> disk_op) list \<Rightarrow> world \<Rightarrow> fault + world" where
  "run [] w = Inr w"
| "run ((e, oper) # rest) w =
     (case exec e oper w of
        (Throws x, w') \<Rightarrow> Inl x
      | (Returns r, w') \<Rightarrow> run rest w')"

text \<open>
  The current index is within the image list, and is 0 when the list is empty. The
  number of images is the length of the list, not the truncated count.
\<close>

definition index_invariant :: "world \<Rightarrow> bool" where
  "index_invariant w \<longleftrightarrow>
     (0 < length (images w) \<longrightarrow> unat (current_index w) < length (images w)) \<and>
     (length (images w) = 0 \<longrightarrow> current_index w = 0)"

definition session_one :: "(env \<times> disk_op) list" where
  "session_one =
     [(env_ok, Mount ''game.img''), (env_ok, Add_image_index),
      (env_ok, Set_image_index 1), (env_ok, Replace_image_index 0 None)]"

definition session_two :: "(env \<times> disk_op) list" where
  "session_two = [(env_ok, Add_image_index), (env_ok, Replace_image_index 0 None)]"

section \<open>Core options (src/libretro/CoreOptions.h)\<close>

text \<open>
  A \<^verbatim>\<open>CoreOptionDefinition*\<close> is the null pointer or the address of a definition; the
  class \<^verbatim>\<open>CoreOptionDefinition\<close> itself is declared in a header that is not among the
  sources. Of the members of \<^verbatim>\<open>CoreOptions\<close> the record names \<^verbatim>\<open>options_map_\<close> and
  \<^verbatim>\<open>key_prefix_\<close> (without the trailing underscore); the others are the record's
  extension, which \<^verbatim>\<open>option\<close> never reads.
\<close>

type_synonym address = nat

datatype pointer = nullptr | Ptr address

record CoreOptions =
  options_map :: "string \<rightharpoonup> pointer"
  key_prefix :: string

text \<open>\<^verbatim>\<open>std::map::find\<close>: the entry for the key, or \<open>None\<close> for \<^verbatim>\<open>end()\<close>.\<close>

definition map_find :: "('k \<rightharpoonup> 'v) \<Rightarrow> 'k \<Rightarrow> ('k \<times> 'v) option" where
  "map_find m k = (case m k of None \<Rightarrow> None | Some v \<Rightarrow> Some (k, v))"

text \<open>
  The two overloads of \<^verbatim>\<open>CoreOptions::option\<close>. The one that is not \<^verbatim>\<open>const\<close> may
  change the object, so it returns the object as well.
\<close>

definition CoreOptions_option ::
  "'a CoreOptions_scheme \<Rightarrow> string \<Rightarrow> pointer \<times> 'a CoreOptions_scheme" where
  "CoreOptions_option this key =
     (let it = map_find (options_map this) key
      in ((case it of Some (k, second) \<Rightarrow> second | None \<Rightarrow> nullptr), this))"

definition CoreOptions_option_const :: "'a CoreOptions_scheme \<Rightarrow> string \<Rightarrow> pointer" where
  "CoreOptions_option_const this key =
     (let it = map_find (options_map this) key
      in (case it of Some (k, second) \<Rightarrow> second | None \<Rightarrow> nullptr))"

definition example_options :: CoreOptions where
  "example_options =
     \<lparr>options_map = [''overclock'' \<mapsto> Ptr 4096, ''frameskip'' \<mapsto> Ptr 4160],
      key_prefix = ''core_name_''\<rparr>"

section \<open>The thread switch (src/libretro/src/emu_thread.h)\<close>

text \<open>
  The header declares \<^verbatim>\<open>struct EmuThreadCanceled\<close>, \<^verbatim>\<open>switchThread()\<close> and
  \<^verbatim>\<open>useSpinlockThreadSync(bool)\<close>; their bodies and the entry point of the emulation thread
  are not among the sources. The two threads are modelled as an interleaving of atomic
  actions on the shared state of the switch coordinator; the operating system's
  primitives and the memory ordering are not part of the model.
\<close>

subsection \<open>Data\<close>

datatype side = Host | Emulation

datatype run_state = HostOwns | EmulationOwns

text \<open>
  What can unwind the emulation thread: the \<^verbatim>\<open>EmuThreadCanceled\<close> of the header, or some
  other error.
\<close>

datatype signal = EmuThreadCanceled | GenericError

text \<open>
  Where a thread is: running its own code, blocked inside \<^verbatim>\<open>switchThread()\<close> (with the
  wait strategy it took when it called: true for the spin variant, false for the block
  variant), unwinding its stack with a signal, exited through its entry point, or
  terminated by a signal that got past the entry point.
\<close>

datatype thread_pc = Running | Waiting bool | Unwinding signal | Exited | Crashed

text \<open>What has happened so far, oldest first.\<close>

datatype mark = Yielded side | Resumed side | Raised | CancelSet

text \<open>
  Modelled from the spec: the state of the switch coordinator, which emu_thread.h does
  not show. It holds the run-state, the sync mode and the cancellation token of section 3,
  and for each of the two threads where it is. \<open>entry_check\<close> is fixed for a session: the
  spec checks the token "at the moment of being woken, not only at entry", which can be
  read with or without a check when \<^verbatim>\<open>switchThread()\<close> is entered; the field selects the
  reading. \<open>history\<close> and \<open>observed\<close> only record: the marks so far, and how often the
  entry point of the emulation thread has caught the cancellation signal.
\<close>

record coordinator =
  run_state :: run_state
  use_spinlock :: bool
  cancel_token :: bool
  entry_check :: bool
  host_pc :: thread_pc
  emu_pc :: thread_pc
  history :: "mark list"
  observed :: nat

fun other :: "side \<Rightarrow> side" where
  "other Host = Emulation"
| "other Emulation = Host"

fun owns :: "side \<Rightarrow> run_state" where
  "owns Host = HostOwns"
| "owns Emulation = EmulationOwns"

fun owner :: "run_state \<Rightarrow> side" where
  "owner HostOwns = Host"
| "owner EmulationOwns = Emulation"

fun pc_of :: "side \<Rightarrow> coordinator \<Rightarrow> thread_pc" where
  "pc_of Host c = host_pc c"
| "pc_of Emulation c = emu_pc c"

fun set_pc :: "side \<Rightarrow> thread_pc \<Rightarrow> coordinator \<Rightarrow> coordinator" where
  "set_pc Host p c = c\<lparr>host_pc := p\<rparr>"
| "set_pc Emulation p c = c\<lparr>emu_pc := p\<rparr>"

definition remember :: "mark \<Rightarrow> coordinator \<Rightarrow> coordinator" where
  "remember m c = c\<lparr>history := history c @ [m]\<rparr>"

text \<open>
  Modelled from the spec: the start of a session (sections 4.1 and 4.2). The host owns
  execution and runs; the first action of the emulation thread was to block until the
  first handoff; the cancellation token is reset.
\<close>

definition initial_coordinator :: "bool \<Rightarrow> bool \<Rightarrow> coordinator" where
  "initial_coordinator spin chk =
     \<lparr>run_state = HostOwns, use_spinlock = spin, cancel_token = False, entry_check = chk,
      host_pc = Running, emu_pc = Waiting spin, history = [], observed = 0\<rparr>"

subsection \<open>\<^verbatim>\<open>switchThread()\<close> and \<^verbatim>\<open>useSpinlockThreadSync()\<close>\<close>

text \<open>The caller is the emulation side and the cancellation token has been set.\<close>

definition must_cancel :: "side \<Rightarrow> coordinator \<Rightarrow> bool" where
  "must_cancel caller c \<longleftrightarrow> caller = Emulation \<and> cancel_token c"

text \<open>
  Modelled from the spec: the first half of \<^verbatim>\<open>switchThread()\<close>, whose body is not among
  the sources (section 4.1). The caller flips the run-state to the other side, which signals
  the other side's wait primitive, and starts to wait with the strategy that is
  selected at this moment. Under the reading with a check at entry, the emulation side
  raises the cancellation signal at once when the token is set.
\<close>

definition switchThread_enter :: "side \<Rightarrow> coordinator \<Rightarrow> coordinator" where
  "switchThread_enter caller c =
     (if entry_check c \<and> must_cancel caller c
      then remember Raised (set_pc caller (Unwinding EmuThreadCanceled) c)
      else remember (Yielded caller)
             (set_pc caller (Waiting (use_spinlock c))
                (c\<lparr>run_state := owns (other caller)\<rparr>)))"

text \<open>
  Modelled from the spec: the second half of \<^verbatim>\<open>switchThread()\<close> (section 4.1). The waiter
  looks at the run-state: a poll of its flag in the spin variant, a wake-up (signalled
  or spurious) followed by the re-check of the predicate in the block variant. While it
  is not its turn it keeps waiting. When it is its turn, the emulation side raises the
  cancellation signal if the token is set; otherwise the call returns.
\<close>

definition switchThread_wake :: "side \<Rightarrow> coordinator \<Rightarrow> coordinator" where
  "switchThread_wake caller c =
     (if run_state c \<noteq> owns caller then c
      else if must_cancel caller c
      then remember Raised (set_pc caller (Unwinding EmuThreadCanceled) c)
      else remember (Resumed caller) (set_pc caller Running c))"

text \<open>
  Modelled from the spec: \<^verbatim>\<open>useSpinlockThreadSync\<close> (section 4.1) only stores the strategy
  for the handoffs to come.
\<close>

definition useSpinlockThreadSync :: "bool \<Rightarrow> coordinator \<Rightarrow> coordinator" where
  "useSpinlockThreadSync b c = c\<lparr>use_spinlock := b\<rparr>"

text \<open>
  Modelled from the spec: the session owner sets the cancellation token (section 3,
  section 4.2); nothing clears it.
\<close>

definition set_cancel_token :: "coordinator \<Rightarrow> coordinator" where
  "set_cancel_token c = remember CancelSet (c\<lparr>cancel_token := True\<rparr>)"

text \<open>
  Modelled from the spec: the entry point of the emulation thread (section 4.2) catches
  exactly the cancellation signal and lets the thread exit; any other signal gets past
  it.
\<close>

definition emu_thread_entry_catch :: "coordinator \<Rightarrow> coordinator" where
  "emu_thread_entry_catch c =
     (case emu_pc c of
        Unwinding EmuThreadCanceled \<Rightarrow> c\<lparr>emu_pc := Exited, observed := observed c + 1\<rparr>
      | Unwinding GenericError \<Rightarrow> c\<lparr>emu_pc := Crashed\<rparr>
      | _ \<Rightarrow> c)"

subsection \<open>Interleavings\<close>

text \<open>
  One atomic action of one of the threads, or of whoever sets the token or the sync
  mode. An action is possible (\<open>Some\<close>) when the thread is where the action starts: only
  a running thread calls \<^verbatim>\<open>switchThread()\<close>, only a waiting thread wakes, only an
  unwinding emulation thread reaches its entry point. The token and the sync mode can
  be set at any moment.
\<close>

datatype action = Call side | Wake side | UseSpinlock bool | SetCancel | Catch

fun is_waiting :: "thread_pc \<Rightarrow> bool" where
  "is_waiting (Waiting m) = True"
| "is_waiting _ = False"

fun is_unwinding :: "thread_pc \<Rightarrow> bool" where
  "is_unwinding (Unwinding s) = True"
| "is_unwinding _ = False"

fun step :: "action \<Rightarrow> coordinator \<Rightarrow> coordinator option" where
  "step (Call s) c = (if pc_of s c = Running then Some (switchThread_enter s c) else None)"
| "step (Wake s) c = (if is_waiting (pc_of s c) then Some (switchThread_wake s c) else None)"
| "step (UseSpinlock b) c = Some (useSpinlockThreadSync b c)"
| "step SetCancel c = Some (set_cancel_token c)"
| "step Catch c = (if is_unwinding (emu_pc c) then Some (emu_thread_entry_catch c) else None)"

fun steps :: "action list \<Rightarrow> coordinator \<Rightarrow> coordinator option" where
  "steps [] c = Some c"
| "steps (a # as) c = (case step a c of None \<Rightarrow> None | Some c' \<Rightarrow> steps as c')"

subsection \<open>Reading the history\<close>

text \<open>Who handed over, who was resumed, and how often the signal was raised.\<close>

definition yields :: "mark list \<Rightarrow> side list" where
  "yields h = [s. Yielded s \<leftarrow> h]"

definition resumes :: "mark list \<Rightarrow> side list" where
  "resumes h = [s. Resumed s \<leftarrow> h]"

definition raises :: "mark list \<Rightarrow> nat" where
  "raises h = length (filter (\<lambda>m. m = Raised) h)"

text \<open>The history from the moment the token was first set.\<close>

definition after_cancel :: "mark list \<Rightarrow> mark list" where
  "after_cancel h = dropWhile (\<lambda>m. m \<noteq> CancelSet) h"

text \<open>The strict alternation of \<open>n\<close> sides that starts with \<open>s\<close>.\<close>

fun ping_pong :: "side \<Rightarrow> nat \<Rightarrow> side list" where
  "ping_pong s 0 = []"
| "ping_pong s (Suc n) = s # ping_pong (other s) n"

text \<open>
  The invariant of the handoff. The side that does not own execution waits. The side
  that owns it runs, with as many resumptions as handoffs so far, or waits for its
  wake-up, with one handoff more; or it is the emulation side on its way out after the
  token was set. Handoffs and resumptions alternate, and the parity of the handoffs
  gives the run-state.
\<close>

definition handoff_inv :: "coordinator \<Rightarrow> bool" where
  "handoff_inv c \<longleftrightarrow>
     (let ow = owner (run_state c);
          n = length (yields (history c));
          m = length (resumes (history c))
      in is_waiting (pc_of (other ow) c) \<and>
         (pc_of ow c = Running \<and> n = m \<or>
          is_waiting (pc_of ow c) \<and> n = Suc m \<or>
          ow = Emulation \<and> cancel_token c \<and> (n = m \<or> n = Suc m) \<and>
            (emu_pc c = Unwinding EmuThreadCanceled \<or> emu_pc c = Exited)) \<and>
         yields (history c) = ping_pong Host n \<and>
         resumes (history c) = ping_pong Emulation m \<and>
         run_state c = (if even n then HostOwns else EmulationOwns))"

text \<open>
  The invariant of the cancellation. The token is set exactly when the history says so;
  the emulation side has not been resumed since; the entry point has caught the signal
  once if the thread has exited and never otherwise; the signal was raised once if the
  thread is unwinding or has exited and never otherwise; and the thread has neither
  crashed nor is it unwinding with another signal.
\<close>

definition cancel_inv :: "coordinator \<Rightarrow> bool" where
  "cancel_inv c \<longleftrightarrow>
     (cancel_token c \<longleftrightarrow> CancelSet \<in> set (history c)) \<and>
     Resumed Emulation \<notin> set (after_cancel (history c)) \<and>
     observed c = (if emu_pc c = Exited then 1 else 0) \<and>
     raises (history c) = (if is_unwinding (emu_pc c) \<or> emu_pc c = Exited then 1 else 0) \<and>
     emu_pc c \<noteq> Crashed \<and> emu_pc c \<noteq> Unwinding GenericError \<and>
     (emu_pc c = Running \<or> is_waiting (emu_pc c) \<or> cancel_token c)"

subsection \<open>Example sessions\<close>

text \<open>
  Two handoffs with the strategy changed in between and one wake-up of the host that
  comes too early; and a shutdown: two handoffs, the token is set, the final handoff.
\<close>

definition handoff_session :: "action list" where
  "handoff_session =
     [Call Host, Wake Emulation, UseSpinlock True, Wake Host, Call Emulation, Wake Host]"

definition shutdown_request :: "action list" where
  "shutdown_request =
     [Call Host, Wake Emulation, Call Emulation, Wake Host, SetCancel, Call Host]"

section \<open>Properties of the disk control\<close>

subsection \<open>Events change the trace only\<close>

lemma emit_fields [simp]:
  "images (emit ev w) = images w"
  "current_index (emit ev w) = current_index w"
  "is_ejected (emit ev w) = is_ejected w"
  "trace (emit ev w) = trace w @ [ev]"
  by (simp_all add: emit_def)

lemma get_num_images_simps [simp]:
  "get_num_images (emit ev w) = get_num_images w"
  "get_num_images (w\<lparr>current_index := c\<rparr>) = get_num_images w"
  "get_num_images (w\<lparr>is_ejected := b\<rparr>) = get_num_images w"
  "get_num_images (w\<lparr>trace := t\<rparr>) = get_num_images w"
  by (simp_all add: get_num_images_def emit_def)

lemmas logs = logDebug_def logWarn_def logError_def dos_def

text \<open>The count that \<^verbatim>\<open>get_num_images\<close> reports is the length of the list below \<open>2^32\<close>.\<close>

lemma unat_get_num_images:
  "length (images w) < 2 ^ 32 \<Longrightarrow> unat (get_num_images w) = length (images w)"
  by (simp add: get_num_images_def unat_of_nat)

lemma word_pred_less: "(0::u32) < n \<Longrightarrow> \<not> n \<le> n - 1"
  by unat_arith

subsection \<open>\<^verbatim>\<open>set_image_index\<close>\<close>

text \<open>
  C3. An index at or above the count that \<^verbatim>\<open>get_num_images\<close> reports is refused:
  \<^verbatim>\<open>set_image_index\<close> returns false and nothing changes, the current index and the image
  list included. An index below the count becomes the current index, the call returns
  true and the image list stays as it was.
\<close>

theorem set_image_index_range:
  "(get_num_images w \<le> i \<longrightarrow> set_image_index i w = (False, w)) \<and>
   (i < get_num_images w \<longrightarrow>
      fst (set_image_index i w) = True \<and>
      current_index (snd (set_image_index i w)) = i \<and>
      images (snd (set_image_index i w)) = images w)"
  by (auto simp: set_image_index_def logs)

text \<open>Index 5 on a registry of two images is refused; index 1 is accepted.\<close>

theorem set_image_index_range_witness:
  "get_num_images two_images \<le> 5 \<and>
   set_image_index 5 two_images = (False, two_images) \<and>
   current_index two_images = 0 \<and>
   1 < get_num_images two_images \<and>
   fst (set_image_index 1 two_images) = True \<and>
   current_index (snd (set_image_index 1 two_images)) = 1 \<and>
   images (snd (set_image_index 1 two_images)) = [''a.img'', ''b.iso'']"
  using set_image_index_range [of two_images 5] set_image_index_range [of two_images 1]
  by (simp add: two_images_def initial_world_def get_num_images_def)

subsection \<open>\<^verbatim>\<open>replace_image_index\<close>\<close>

lemma set_image_index_last:
  "0 < get_num_images w \<Longrightarrow>
   set_image_index (get_num_images w - 1) w =
     (True, logDebug ''Disk index {}.'' [Num (unat (get_num_images w - 1))]
              (w\<lparr>current_index := get_num_images w - 1\<rparr>))"
  by (simp add: set_image_index_def word_pred_less)

lemma replace_invalid:
  "get_num_images w \<le> i \<Longrightarrow>
   replace_image_index i info w =
     (Returns False,
      logWarn ''Frontend tried to replace invalid disk index {}.'' [Num (unat i)] w)"
  by (simp add: replace_image_index_def)

lemma replace_nullptr_valid:
  assumes "i < get_num_images w"
  shows "replace_image_index i None w =
    (Returns True,
     let w1 = w\<lparr>images := erase (images w) (unat i)\<rparr> in
     if get_num_images w1 \<le> current_index w \<and> 0 < get_num_images w1
     then logDebug ''Disk index {}.'' [Num (unat (get_num_images w1 - 1))]
             (w1\<lparr>current_index := get_num_images w1 - 1\<rparr>)
     else w1)"
proof -
  have "\<not> get_num_images w \<le> i" using assms by simp
  then show ?thesis
    by (simp add: replace_image_index_def Let_def get_image_index_def set_image_index_last)
qed

text \<open>
  C4. With an index below the count, \<^verbatim>\<open>replace_image_index(i, nullptr)\<close> erases the
  entry at \<open>i\<close> and returns true. A registry of one image with current index 0 becomes
  empty and keeps current index 0. If afterwards the current index is at or above the
  new count and the new count is positive, the current index becomes the new count
  minus one; otherwise it stays. With an index at or above the count the call returns
  false and the image list, the current index and the ejected flag stay as they were.
\<close>

theorem replace_image_index_nullptr:
  "(i < get_num_images w \<longrightarrow>
      (let w' = snd (replace_image_index i None w) in
       fst (replace_image_index i None w) = Returns True \<and>
       images w' = erase (images w) (unat i) \<and>
       is_ejected w' = is_ejected w \<and>
       (images w = [p] \<and> i = 0 \<and> current_index w = 0 \<longrightarrow>
          images w' = [] \<and> current_index w' = 0) \<and>
       (get_num_images w' \<le> current_index w \<and> 0 < get_num_images w' \<longrightarrow>
          current_index w' = get_num_images w' - 1) \<and>
       (\<not> (get_num_images w' \<le> current_index w \<and> 0 < get_num_images w') \<longrightarrow>
          current_index w' = current_index w))) \<and>
   (get_num_images w \<le> i \<longrightarrow>
      fst (replace_image_index i info w) = Returns False \<and>
      images (snd (replace_image_index i info w)) = images w \<and>
      current_index (snd (replace_image_index i info w)) = current_index w \<and>
      is_ejected (snd (replace_image_index i info w)) = is_ejected w)"
proof (intro conjI impI)
  assume v: "i < get_num_images w"
  show "let w' = snd (replace_image_index i None w) in
       fst (replace_image_index i None w) = Returns True \<and>
       images w' = erase (images w) (unat i) \<and>
       is_ejected w' = is_ejected w \<and>
       (images w = [p] \<and> i = 0 \<and> current_index w = 0 \<longrightarrow>
          images w' = [] \<and> current_index w' = 0) \<and>
       (get_num_images w' \<le> current_index w \<and> 0 < get_num_images w' \<longrightarrow>
          current_index w' = get_num_images w' - 1) \<and>
       (\<not> (get_num_images w' \<le> current_index w \<and> 0 < get_num_images w') \<longrightarrow>
          current_index w' = current_index w)"
    unfolding replace_nullptr_valid [OF v]
    by (auto simp: Let_def logs erase_def get_num_images_def)
qed (simp_all add: replace_invalid logs)

text \<open>
  The only image is removed and the current index stays 0; removing the first of two
  images while the second is current moves the current index to 0; index 5 on two
  images is refused.
\<close>

theorem replace_image_index_nullptr_witness:
  "0 < get_num_images one_image \<and>
   fst (replace_image_index 0 None one_image) = Returns True \<and>
   images (snd (replace_image_index 0 None one_image)) = [] \<and>
   current_index (snd (replace_image_index 0 None one_image)) = 0 \<and>
   0 < get_num_images two_images_second \<and>
   fst (replace_image_index 0 None two_images_second) = Returns True \<and>
   images (snd (replace_image_index 0 None two_images_second)) = [''b.iso''] \<and>
   current_index (snd (replace_image_index 0 None two_images_second)) = 0 \<and>
   get_num_images two_images \<le> 5 \<and>
   fst (replace_image_index 5 None two_images) = Returns False \<and>
   images (snd (replace_image_index 5 None two_images)) = [''a.img'', ''b.iso''] \<and>
   current_index (snd (replace_image_index 5 None two_images)) = 0"
  using replace_image_index_nullptr [where i = 0 and w = one_image and p = "''game.img''"]
    replace_image_index_nullptr [where i = 0 and w = two_images_second]
    replace_image_index_nullptr [where i = 5 and w = two_images and info = None]
  by (simp add: one_image_def two_images_def two_images_second_def initial_world_def
      get_num_images_def erase_def Let_def)

subsection \<open>\<^verbatim>\<open>get_image_label\<close>\<close>

text \<open>
  The guard of \<^verbatim>\<open>get_image_label\<close> is \<^verbatim>\<open>index > get_num_images()\<close>: an index above the
  count is refused without reading the list.
\<close>

lemma get_image_label_above:
  "get_num_images w < i \<Longrightarrow> get_image_label i len w = Returns (False, None)"
  by (simp add: get_image_label_def)

text \<open>
  C5. The index equal to the count is out of range but passes the guard, and
  \<^verbatim>\<open>images.at(index)\<close> throws \<^verbatim>\<open>std::out_of_range\<close>: index 2 on a registry of two images.
\<close>

theorem get_image_label_at_count_throws:
  "get_num_images two_images \<le> 2 \<and>
   get_image_label 2 16 two_images = Throws std_out_of_range"
  by (simp add: get_image_label_def two_images_def initial_world_def get_num_images_def at_def)

subsection \<open>Evaluating extensions and drive letters\<close>

lemma same_registry_refl [simp]: "same_registry w w"
  by (simp add: same_registry_def)

lemma same_registry_emit [simp]: "same_registry w (emit ev w') = same_registry w w'"
  by (simp add: same_registry_def)

lemma ext_game_img: "lower_case (path_extension ''game.img'') = ''.img''"
  by code_simp

lemma ext_game_img_raw: "path_extension ''game.img'' = ''.img''"
  by code_simp

lemma ext_GAME_IMG_raw: "path_extension ''GAME.IMG'' = ''.IMG''"
  by code_simp

lemma lower_IMG: "lower_case ''.IMG'' = ''.img''"
  by code_simp

lemma drive_index_A: "drive_index CHR ''A'' = 0"
  by (simp add: drive_index_def)

lemma drive_index_D: "drive_index CHR ''D'' = 3"
  by (simp add: drive_index_def)

subsection \<open>Mounting and unmounting leave the registry alone, except for the first image\<close>

lemma mount_floppy_image_registry:
  "same_registry w (snd (mount_floppy_image e c p w))"
  by (simp add: mount_floppy_image_def Let_def logs split: sum.splits)

lemma mount_cd_image_registry:
  "same_registry w (snd (mount_cd_image e c p w))"
  by (simp add: mount_cd_image_def Let_def logs)

lemma unmount_registry:
  "same_registry w (snd (unmount e p w))"
  by (simp add: unmount_def Let_def logs)

lemma mount_declined_registry:
  assumes "fst (mount e p w) = Returns False"
  shows "same_registry w (snd (mount e p w))"
proof (cases "SecureMode e")
  case True
  then show ?thesis by (simp add: mount_def logs)
next
  case False
  note ns = this
  show ?thesis
  proof (cases "lower_case (path_extension p) = ''.img''")
    case True
    obtain ok w1 where m: "mount_floppy_image e CHR ''A'' p
        (logDebug ''Mounting disk as floppy {}.'' [Path p] w) = (ok, w1)"
      by (cases "mount_floppy_image e CHR ''A'' p
        (logDebug ''Mounting disk as floppy {}.'' [Path p] w)")
    have r: "same_registry w w1"
      using mount_floppy_image_registry
        [of "logDebug ''Mounting disk as floppy {}.'' [Path p] w" e "CHR ''A''" p] m
      by (simp add: logs same_registry_def)
    show ?thesis using assms ns True m r
      by (simp add: mount_def Let_def assign_at_def add_image_index_def logs split: if_splits)
  next
    case False
    note ni = this
    show ?thesis
    proof (cases "lower_case (path_extension p) = ''.iso'' \<or>
                  lower_case (path_extension p) = ''.cue''")
      case True
      obtain ok w1 where m: "mount_cd_image e CHR ''D'' p
          (logDebug ''Mounting disk as cdrom {}.'' [Path p] w) = (ok, w1)"
        by (cases "mount_cd_image e CHR ''D'' p
          (logDebug ''Mounting disk as cdrom {}.'' [Path p] w)")
      have r: "same_registry w w1"
        using mount_cd_image_registry
          [of "logDebug ''Mounting disk as cdrom {}.'' [Path p] w" e "CHR ''D''" p] m
        by (simp add: logs same_registry_def)
      show ?thesis using assms ns ni True m r
        by (simp add: mount_def Let_def assign_at_def add_image_index_def logs split: if_splits)
    next
      case False
      then show ?thesis using ns ni by (simp add: mount_def Let_def logs)
    qed
  qed
qed

subsection \<open>\<^verbatim>\<open>set_eject_state\<close>\<close>

text \<open>
  C6, as the code has it. \<^verbatim>\<open>set_eject_state\<close> assigns the ejected flag before it tries
  to mount or unmount. When it returns false, the image list and the current index are
  what they were, and the ejected flag is the requested value.
\<close>

theorem set_eject_state_declined:
  assumes "fst (set_eject_state e ejected w) = Returns False"
  shows "images (snd (set_eject_state e ejected w)) = images w \<and>
         current_index (snd (set_eject_state e ejected w)) = current_index w \<and>
         is_ejected (snd (set_eject_state e ejected w)) = ejected"
proof -
  let ?w1 = "logDebug ''Tray {}.'' [Str (if ejected then ''open'' else ''close'')]
                 (w\<lparr>is_ejected := ejected\<rparr>)"
  have w1: "images ?w1 = images w" "current_index ?w1 = current_index w"
    "is_ejected ?w1 = ejected"
    by (simp_all add: logs)
  have n0: "get_num_images ?w1 \<noteq> 0"
    using assms by (auto simp: set_eject_state_def Let_def)
  obtain p where p: "at (images ?w1) (unat (get_image_index ?w1)) = Inr p"
    using assms n0
    by (cases "at (images ?w1) (unat (get_image_index ?w1))")
       (simp_all add: set_eject_state_def Let_def)
  show ?thesis
  proof (cases ejected)
    case True
    have "set_eject_state e ejected w =
            (Returns (fst (unmount e p ?w1)), snd (unmount e p ?w1))"
      using n0 p True by (simp add: set_eject_state_def Let_def split_beta)
    then show ?thesis using unmount_registry [of ?w1 e p] w1
      by (simp add: same_registry_def)
  next
    case False
    have s: "set_eject_state e ejected w = mount e p ?w1"
      using n0 p False by (simp add: set_eject_state_def Let_def)
    then have "fst (mount e p ?w1) = Returns False" using assms by simp
    from mount_declined_registry [OF this] show ?thesis using w1 s
      by (simp add: same_registry_def)
  qed
qed

lemma set_eject_state_missing_file:
  "fst (set_eject_state env_missing_file False one_image_ejected) = Returns False"
  by (simp add: set_eject_state_def mount_def mount_floppy_image_def env_missing_file_def
      env_ok_def one_image_ejected_def one_image_def initial_world_def get_num_images_def
      get_image_index_def at_def ext_game_img Let_def logs)

text \<open>
  Closing the tray on an image whose file cannot be read: the call is declined, the
  list and the index stay, the flag is now false.
\<close>

theorem set_eject_state_declined_witness:
  "fst (set_eject_state env_missing_file False one_image_ejected) = Returns False \<and>
   images (snd (set_eject_state env_missing_file False one_image_ejected)) = [''game.img''] \<and>
   current_index (snd (set_eject_state env_missing_file False one_image_ejected)) = 0 \<and>
   is_ejected (snd (set_eject_state env_missing_file False one_image_ejected)) = False"
  using set_eject_state_declined [OF set_eject_state_missing_file]
    set_eject_state_missing_file
  by (simp add: one_image_ejected_def one_image_def initial_world_def)

text \<open>
  C6, as the claim states it, fails: the tray was open (ejected flag true), the frontend
  closes it, mounting fails because the file size cannot be read, the call returns
  false, and the ejected flag has changed to false.
\<close>

theorem set_eject_state_changes_flag:
  "fst (set_eject_state env_missing_file False one_image_ejected) = Returns False \<and>
   is_ejected one_image_ejected = True \<and>
   is_ejected (snd (set_eject_state env_missing_file False one_image_ejected)) = False"
  by (simp add: set_eject_state_def mount_def mount_floppy_image_def env_missing_file_def
      env_ok_def one_image_ejected_def one_image_def initial_world_def get_num_images_def
      get_image_index_def at_def ext_game_img Let_def logs)

subsection \<open>Secure mode\<close>

text \<open>\<^verbatim>\<open>disk_control::mount\<close> tests secure mode first and declines.\<close>

lemma mount_secure_declines:
  "SecureMode e \<Longrightarrow>
   mount e p w =
     (Returns False, logError ''Mounting is not permitted in secure mode.'' [] w)"
  by (simp add: mount_def)

text \<open>
  C7. \<^verbatim>\<open>unmount\<close> has no such test. In secure mode, with one floppy image registered
  and drive A occupied, opening the tray unmounts drive A and returns true.
\<close>

theorem unmount_in_secure_mode:
  "SecureMode env_secure \<and>
   unmount env_secure ''game.img'' one_image =
     (True, one_image\<lparr>trace :=
        [Log LogDebug ''Unmounting floppy {}.'' [Path ''game.img''],
         Dos (UnmountDrive 0), Dos (Drives_assign_nullptr 0), Dos (CycleDisks 0 True)]\<rparr>) \<and>
   fst (set_eject_state env_secure True one_image) = Returns True \<and>
   trace (snd (set_eject_state env_secure True one_image)) =
     [Log LogDebug ''Tray {}.'' [Str ''open''],
      Log LogDebug ''Unmounting floppy {}.'' [Path ''game.img''],
      Dos (UnmountDrive 0), Dos (Drives_assign_nullptr 0), Dos (CycleDisks 0 True)]"
  by (simp add: set_eject_state_def unmount_def env_secure_def env_ok_def one_image_def
      initial_world_def get_num_images_def get_image_index_def at_def ext_game_img Let_def
      logs drive_index_A)

subsection \<open>\<^verbatim>\<open>disk_control::mount\<close>: from the extension to the drive letter\<close>

lemma appended_simps [simp]:
  "appended_drives [] = []"
  "appended_drives (Log l f a # evs) = appended_drives evs"
  "appended_drives (Dos (AppendDisk d) # evs) = d # appended_drives evs"
  "appended_drives (Dos (file_size_query p) # evs) = appended_drives evs"
  "appended_drives (Dos (new_fatDrive p) # evs) = appended_drives evs"
  "appended_drives (Dos (new_isoDrive c p m) # evs) = appended_drives evs"
  "appended_drives (Dos MSCDEX_SetCDInterface # evs) = appended_drives evs"
  "appended_drives (Dos (InitializeDrive d) # evs) = appended_drives evs"
  "appended_drives (Dos (mem_writeb_mediaid d m) # evs) = appended_drives evs"
  "appended_drives (Dos dos_dta_tempdta # evs) = appended_drives evs"
  "appended_drives (Dos EmptyCache_all_drives # evs) = appended_drives evs"
  "appended_drives (Dos (CycleDisks d b) # evs) = appended_drives evs"
  "appended_drives (Dos (UnmountDrive d) # evs) = appended_drives evs"
  "appended_drives (Dos (Drives_assign_nullptr d) # evs) = appended_drives evs"
  by (simp_all add: appended_drives_def)

lemma appended_append [simp]:
  "appended_drives (xs @ ys) = appended_drives xs @ appended_drives ys"
  by (simp add: appended_drives_def)

lemma mount_unsupported:
  assumes "\<not> SecureMode e" "lower_case (path_extension p) \<noteq> ''.img''"
    "lower_case (path_extension p) \<noteq> ''.iso''" "lower_case (path_extension p) \<noteq> ''.cue''"
  shows "mount e p w =
    (Returns False, logError ''Unsupported disk image {}.'' [Path (path_extension p)] w)"
  using assms by (simp add: mount_def Let_def)

lemma floppy_trace:
  "\<exists>evs. trace (snd (mount_floppy_image e c p w)) = trace w @ evs \<and>
     appended_drives evs = (if fst (mount_floppy_image e c p w) then [drive_index c] else []) \<and>
     (\<forall>c' q m. Dos (new_isoDrive c' q m) \<notin> set evs)"
  by (auto simp: mount_floppy_image_def Let_def logs split: sum.splits)

lemma cd_trace:
  "\<exists>evs. trace (snd (mount_cd_image e c p w)) = trace w @ evs \<and>
     appended_drives evs = (if fst (mount_cd_image e c p w) then [drive_index c] else []) \<and>
     (\<forall>q. Dos (new_fatDrive q) \<notin> set evs)"
  by (auto simp: mount_cd_image_def Let_def logs)

lemma mount_floppy:
  assumes "\<not> SecureMode e" "lower_case (path_extension p) = ''.img''"
  shows "let r = mount_floppy_image e CHR ''A'' p
                   (logDebug ''Mounting disk as floppy {}.'' [Path p] w);
             w' = snd (mount e p w) in
       fst (mount e p w) = Returns (fst r) \<and>
       appended_drives (new_events w w') = (if fst r then [drive_index CHR ''A''] else []) \<and>
       (\<forall>c q m. Dos (new_isoDrive c q m) \<notin> set (new_events w w'))"
proof -
  let ?w0 = "logDebug ''Mounting disk as floppy {}.'' [Path p] w"
  obtain ok w1 where m: "mount_floppy_image e CHR ''A'' p ?w0 = (ok, w1)"
    by (cases "mount_floppy_image e CHR ''A'' p ?w0")
  from floppy_trace [of e "CHR ''A''" p ?w0] m obtain evs where
    evs: "trace w1 = trace ?w0 @ evs"
      "appended_drives evs = (if ok then [drive_index CHR ''A''] else [])"
      "\<forall>c' q m. Dos (new_isoDrive c' q m) \<notin> set evs"
    by auto
  show ?thesis using assms m evs
    by (auto simp: mount_def Let_def new_events_def logs add_image_index_def assign_at_def)
qed

lemma mount_cd:
  assumes "\<not> SecureMode e"
    "lower_case (path_extension p) = ''.iso'' \<or> lower_case (path_extension p) = ''.cue''"
  shows "let r = mount_cd_image e CHR ''D'' p
                   (logDebug ''Mounting disk as cdrom {}.'' [Path p] w);
             w' = snd (mount e p w) in
       fst (mount e p w) = Returns (fst r) \<and>
       appended_drives (new_events w w') = (if fst r then [drive_index CHR ''D''] else []) \<and>
       (\<forall>q. Dos (new_fatDrive q) \<notin> set (new_events w w'))"
proof -
  let ?w0 = "logDebug ''Mounting disk as cdrom {}.'' [Path p] w"
  obtain ok w1 where m: "mount_cd_image e CHR ''D'' p ?w0 = (ok, w1)"
    by (cases "mount_cd_image e CHR ''D'' p ?w0")
  from cd_trace [of e "CHR ''D''" p ?w0] m obtain evs where
    evs: "trace w1 = trace ?w0 @ evs"
      "appended_drives evs = (if ok then [drive_index CHR ''D''] else [])"
      "\<forall>q. Dos (new_fatDrive q) \<notin> set evs"
    by auto
  have ni: "lower_case (path_extension p) \<noteq> ''.img''" using assms(2) by auto
  show ?thesis using assms ni m evs
    by (auto simp: mount_def Let_def new_events_def logs add_image_index_def assign_at_def)
qed

text \<open>
  C8, as the code has it. Outside secure mode \<^verbatim>\<open>disk_control::mount\<close> lower-cases the
  extension and goes by the result. For \<^verbatim>\<open>.img\<close> it runs the floppy mounter with drive
  letter A and returns what that returned; the only drive slot appended to is that of A,
  and only when the mounter succeeded; no \<^verbatim>\<open>isoDrive\<close> is constructed. For \<^verbatim>\<open>.iso\<close> and
  \<^verbatim>\<open>.cue\<close> it does the same with the CD mounter and drive letter D, and constructs no
  \<^verbatim>\<open>fatDrive\<close>. For every other lower-cased extension it returns false, and all it does
  is write the log line \<^verbatim>\<open>Unsupported disk image\<close>.
\<close>

theorem mount_by_extension:
  assumes "\<not> SecureMode e"
  shows
  "(lower_case (path_extension p) = ''.img'' \<longrightarrow>
      (let r = mount_floppy_image e CHR ''A'' p
                 (logDebug ''Mounting disk as floppy {}.'' [Path p] w);
           w' = snd (mount e p w) in
       fst (mount e p w) = Returns (fst r) \<and>
       appended_drives (new_events w w') = (if fst r then [drive_index CHR ''A''] else []) \<and>
       (\<forall>c q m. Dos (new_isoDrive c q m) \<notin> set (new_events w w')))) \<and>
   (lower_case (path_extension p) = ''.iso'' \<or> lower_case (path_extension p) = ''.cue'' \<longrightarrow>
      (let r = mount_cd_image e CHR ''D'' p
                 (logDebug ''Mounting disk as cdrom {}.'' [Path p] w);
           w' = snd (mount e p w) in
       fst (mount e p w) = Returns (fst r) \<and>
       appended_drives (new_events w w') = (if fst r then [drive_index CHR ''D''] else []) \<and>
       (\<forall>q. Dos (new_fatDrive q) \<notin> set (new_events w w')))) \<and>
   (lower_case (path_extension p) \<noteq> ''.img'' \<and>
    lower_case (path_extension p) \<noteq> ''.iso'' \<and>
    lower_case (path_extension p) \<noteq> ''.cue'' \<longrightarrow>
      mount e p w =
        (Returns False,
         logError ''Unsupported disk image {}.'' [Path (path_extension p)] w))"
  using mount_floppy [OF assms, of p w] mount_cd [OF assms, of p w]
    mount_unsupported [OF assms, of p w]
  by blast

lemma ext_cd_iso: "lower_case (path_extension ''cd.iso'') = ''.iso''"
  by code_simp

lemma ext_notes_raw: "path_extension ''notes.txt'' = ''.txt''"
  by code_simp

lemma lower_txt: "lower_case ''.txt'' = ''.txt''"
  by code_simp

lemma not_secure_ok: "\<not> SecureMode env_ok"
  by (simp add: env_ok_def)

lemma floppy_ok: "fst (mount_floppy_image env_ok c p w) = True"
  by (simp add: mount_floppy_image_def env_ok_def Let_def)

lemma cd_ok: "fst (mount_cd_image env_ok c p w) = True"
  by (simp add: mount_cd_image_def env_ok_def Let_def)

text \<open>
  On the empty registry, outside secure mode: \<^verbatim>\<open>game.img\<close> goes to slot 0 (drive A),
  \<^verbatim>\<open>cd.iso\<close> to slot 3 (drive D), and \<^verbatim>\<open>notes.txt\<close> is refused with one log line.
\<close>

theorem mount_by_extension_witness:
  "\<not> SecureMode env_ok \<and>
   lower_case (path_extension ''game.img'') = ''.img'' \<and>
   fst (mount env_ok ''game.img'' initial_world) = Returns True \<and>
   appended_drives
     (new_events initial_world (snd (mount env_ok ''game.img'' initial_world))) = [0] \<and>
   lower_case (path_extension ''cd.iso'') = ''.iso'' \<and>
   fst (mount env_ok ''cd.iso'' initial_world) = Returns True \<and>
   appended_drives
     (new_events initial_world (snd (mount env_ok ''cd.iso'' initial_world))) = [3] \<and>
   lower_case (path_extension ''notes.txt'') = ''.txt'' \<and>
   fst (mount env_ok ''notes.txt'' initial_world) = Returns False \<and>
   trace (snd (mount env_ok ''notes.txt'' initial_world)) =
     [Log LogError ''Unsupported disk image {}.'' [Path ''.txt'']]"
  using mount_by_extension [OF not_secure_ok, of "''game.img''" initial_world]
    mount_by_extension [OF not_secure_ok, of "''cd.iso''" initial_world]
    mount_by_extension [OF not_secure_ok, of "''notes.txt''" initial_world]
  by (simp add: ext_game_img ext_cd_iso lower_txt ext_notes_raw not_secure_ok floppy_ok cd_ok
      drive_index_A drive_index_D Let_def logs initial_world_def)

text \<open>
  C8, as the claim states it, fails twice. The extension \<^verbatim>\<open>.IMG\<close> is none of
  \<^verbatim>\<open>.img\<close>, \<^verbatim>\<open>.iso\<close>, \<^verbatim>\<open>.cue\<close>, yet \<^verbatim>\<open>GAME.IMG\<close> is mounted on drive A and the call
  returns true. And in secure mode \<^verbatim>\<open>game.img\<close>, whose extension is \<^verbatim>\<open>.img\<close>, is not
  mounted at all: the call returns false after one log line.
\<close>

theorem mount_upper_case_and_secure:
  "path_extension ''GAME.IMG'' = ''.IMG'' \<and>
   fst (mount env_ok ''GAME.IMG'' initial_world) = Returns True \<and>
   appended_drives (trace (snd (mount env_ok ''GAME.IMG'' initial_world))) =
     [drive_index CHR ''A''] \<and>
   SecureMode env_secure \<and>
   path_extension ''game.img'' = ''.img'' \<and>
   mount env_secure ''game.img'' initial_world =
     (Returns False,
      initial_world\<lparr>trace :=
        [Log LogError ''Mounting is not permitted in secure mode.'' []]\<rparr>)"
  by (simp add: mount_def mount_floppy_image_def env_secure_def env_ok_def initial_world_def
      add_image_index_def assign_at_def get_num_images_def ext_GAME_IMG_raw lower_IMG
      ext_game_img_raw Let_def logs drive_index_A)

subsection \<open>The current index stays within the image list\<close>

lemma index_invariant_emit [simp]: "index_invariant (emit ev w) = index_invariant w"
  by (simp add: index_invariant_def)

lemma index_invariant_same: "same_registry w w' \<Longrightarrow> index_invariant w' = index_invariant w"
  by (simp add: index_invariant_def same_registry_def)

lemma index_invariant_below:
  "unat (current_index w) < length (images w) \<Longrightarrow> index_invariant w"
  by (auto simp: index_invariant_def)

lemma index_invariant_empty:
  "images w = [] \<Longrightarrow> current_index w = 0 \<Longrightarrow> index_invariant w"
  by (simp add: index_invariant_def)

lemma below_count: "i < (of_nat n :: u32) \<Longrightarrow> unat i < n"
proof -
  assume "i < (of_nat n :: u32)"
  then have "unat i < unat (of_nat n :: u32)" by (simp add: word_less_nat_alt)
  also have "\<dots> \<le> n" by (simp add: unat_of_nat)
  finally show ?thesis .
qed

lemma count_pred: "0 < (of_nat n :: u32) \<Longrightarrow> unat ((of_nat n :: u32) - 1) < n"
proof -
  assume a: "0 < (of_nat n :: u32)"
  then have "unat ((of_nat n :: u32) - 1) < unat (of_nat n :: u32)"
    by unat_arith
  also have "\<dots> \<le> n" by (simp add: unat_of_nat)
  finally show ?thesis .
qed

lemma count_zero: "(of_nat n :: u32) = 0 \<Longrightarrow> n = 0 \<or> 2 ^ 32 \<le> n"
proof -
  assume "(of_nat n :: u32) = 0"
  then have "unat (of_nat n :: u32) = 0" by simp
  then have "n mod 2 ^ 32 = 0" by (simp add: unat_of_nat)
  then show ?thesis by (cases "n < 2 ^ 32") auto
qed

lemma unat_u32_bound: "unat (c :: u32) < 2 ^ 32"
  using unsigned_less [of c] by simp

lemma add_image_index_invariant:
  "index_invariant w \<Longrightarrow> index_invariant (snd (add_image_index w))"
  by (auto simp: add_image_index_def Let_def logs index_invariant_def)

lemma set_image_index_invariant:
  "index_invariant w \<Longrightarrow> index_invariant (snd (set_image_index i w))"
  by (auto simp: set_image_index_def logs index_invariant_def get_num_images_def not_le
      dest: below_count)

lemma length_erase: "k < length xs \<Longrightarrow> length (erase xs k) = length xs - 1"
  by (simp add: erase_def)

lemma replace_image_index_invariant:
  assumes "index_invariant w"
  shows "(\<forall>x. fst (replace_image_index i info w) \<noteq> Throws x) \<and>
         index_invariant (snd (replace_image_index i info w))"
proof (cases "get_num_images w \<le> i")
  case True
  then show ?thesis using assms by (simp add: replace_invalid logs)
next
  case False
  then have v: "i < get_num_images w" by simp
  then have k: "unat i < length (images w)"
    by (simp add: get_num_images_def below_count)
  show ?thesis
  proof (cases info)
    case (Some p)
    then show ?thesis using assms False k
      by (simp add: replace_image_index_def assign_at_def index_invariant_def)
  next
    case None
    define w1 where "w1 = w\<lparr>images := erase (images w) (unat i)\<rparr>"
    define m where "m = length (images w1)"
    have len: "length (images w) = Suc m"
      using k by (simp add: m_def w1_def length_erase)
    have n1: "get_num_images w1 = of_nat m" by (simp add: get_num_images_def m_def)
    have cur1: "current_index w1 = current_index w" by (simp add: w1_def)
    have r: "replace_image_index i info w =
      (Returns True,
       if get_num_images w1 \<le> current_index w \<and> 0 < get_num_images w1
       then logDebug ''Disk index {}.'' [Num (unat (get_num_images w1 - 1))]
              (w1\<lparr>current_index := get_num_images w1 - 1\<rparr>)
       else w1)"
      using None by (simp add: replace_nullptr_valid [OF v] Let_def w1_def)
    show ?thesis
    proof (cases "get_num_images w1 \<le> current_index w \<and> 0 < get_num_images w1")
      case True
      then have "unat (get_num_images w1 - 1) < m" using n1 count_pred [of m] by simp
      then show ?thesis using True r
        by (auto simp: logs index_invariant_def m_def)
    next
      case False
      have "index_invariant w1"
      proof (cases "get_num_images w1 = 0")
        case True
        then have "m = 0 \<or> 2 ^ 32 \<le> m" using n1 count_zero [of m] by simp
        then show ?thesis
        proof
          assume m0: "m = 0"
          then have "current_index w = 0"
            using assms len by (simp add: index_invariant_def unat_eq_0)
          then show ?thesis using m0 cur1 by (simp add: index_invariant_empty m_def)
        next
          assume "2 ^ 32 \<le> m"
          then show ?thesis using unat_u32_bound [of "current_index w"] cur1
            by (intro index_invariant_below) (simp add: m_def)
        qed
      next
        case nz: False
        then have "0 < get_num_images w1" by (simp add: word_neq_0_conv)
        then have "current_index w < get_num_images w1" using False by simp
        then have "unat (current_index w) < m" using n1 below_count by simp
        then show ?thesis using cur1 by (intro index_invariant_below) (simp add: m_def)
      qed
      then show ?thesis using False r by auto
    qed
  qed
qed

lemma mount_tail_invariant:
  assumes inv: "index_invariant w" and r: "same_registry w w1"
  shows "(\<forall>x. fst (
       if \<not> ok then (Returns False, w1)
       else
         let w2 = dos EmptyCache_all_drives w1;
             w3 = dos (CycleDisks (drive_index c) True) w2;
             w4 = logDebug ''Drive {} is mounted as {}.'' [Chr c, Path p] w3
         in if get_num_images w4 = 0
            then (let w5 = snd (add_image_index w4) in
                  case assign_at (images w5) 0 p of
                    Inl x \<Rightarrow> (Throws x, w5)
                  | Inr imgs \<Rightarrow> (Returns ok, w5\<lparr>images := imgs\<rparr>))
            else (Returns ok, w4)) \<noteq> Throws x) \<and>
     index_invariant (snd (
       if \<not> ok then (Returns False, w1)
       else
         let w2 = dos EmptyCache_all_drives w1;
             w3 = dos (CycleDisks (drive_index c) True) w2;
             w4 = logDebug ''Drive {} is mounted as {}.'' [Chr c, Path p] w3
         in if get_num_images w4 = 0
            then (let w5 = snd (add_image_index w4) in
                  case assign_at (images w5) 0 p of
                    Inl x \<Rightarrow> (Throws x, w5)
                  | Inr imgs \<Rightarrow> (Returns ok, w5\<lparr>images := imgs\<rparr>))
            else (Returns ok, w4)))"
proof -
  have i1: "index_invariant w1" using inv r by (simp add: index_invariant_same)
  then have "index_invariant (w1\<lparr>images := (images w1 @ [[]])[0 := p]\<rparr>)"
    by (auto simp: index_invariant_def)
  then show ?thesis using i1
    by (auto simp: Let_def logs add_image_index_def assign_at_def index_invariant_def)
qed

lemma mount_invariant:
  assumes inv: "index_invariant w"
  shows "(\<forall>x. fst (mount e p w) \<noteq> Throws x) \<and> index_invariant (snd (mount e p w))"
proof (cases "SecureMode e")
  case True
  then show ?thesis using inv by (simp add: mount_def logs)
next
  case False
  note ns = this
  show ?thesis
  proof (cases "lower_case (path_extension p) = ''.img''")
    case True
    obtain ok w1 where m: "mount_floppy_image e CHR ''A'' p
        (logDebug ''Mounting disk as floppy {}.'' [Path p] w) = (ok, w1)"
      by (cases "mount_floppy_image e CHR ''A'' p
        (logDebug ''Mounting disk as floppy {}.'' [Path p] w)")
    have r: "same_registry w w1"
      using mount_floppy_image_registry
        [of "logDebug ''Mounting disk as floppy {}.'' [Path p] w" e "CHR ''A''" p] m
      by (simp add: logs same_registry_def)
    show ?thesis using ns True m mount_tail_invariant [OF inv r, of ok "CHR ''A''" p]
      by (simp add: mount_def Let_def)
  next
    case False
    note ni = this
    show ?thesis
    proof (cases "lower_case (path_extension p) = ''.iso'' \<or>
                  lower_case (path_extension p) = ''.cue''")
      case True
      obtain ok w1 where m: "mount_cd_image e CHR ''D'' p
          (logDebug ''Mounting disk as cdrom {}.'' [Path p] w) = (ok, w1)"
        by (cases "mount_cd_image e CHR ''D'' p
          (logDebug ''Mounting disk as cdrom {}.'' [Path p] w)")
      have r: "same_registry w w1"
        using mount_cd_image_registry
          [of "logDebug ''Mounting disk as cdrom {}.'' [Path p] w" e "CHR ''D''" p] m
        by (simp add: logs same_registry_def)
      show ?thesis using ns ni True m mount_tail_invariant [OF inv r, of ok "CHR ''D''" p]
        by (simp add: mount_def Let_def)
    next
      case False
      then show ?thesis using ns ni inv by (simp add: mount_def Let_def logs)
    qed
  qed
qed

lemma set_eject_state_invariant:
  assumes inv: "index_invariant w"
  shows "(\<forall>x. fst (set_eject_state e ejected w) \<noteq> Throws x) \<and>
         index_invariant (snd (set_eject_state e ejected w))"
proof -
  define w1 where "w1 = logDebug ''Tray {}.'' [Str (if ejected then ''open'' else ''close'')]
                 (w\<lparr>is_ejected := ejected\<rparr>)"
  have i1: "index_invariant w1" using inv by (simp add: w1_def logs index_invariant_def)
  have s: "set_eject_state e ejected w =
     (if get_num_images w1 = 0 then (Returns True, w1)
         else (case at (images w1) (unat (get_image_index w1)) of
                 Inl x \<Rightarrow> (Throws x, w1)
               | Inr p \<Rightarrow>
                   if ejected then (let (r, w2) = unmount e p w1 in (Returns r, w2))
                   else mount e p w1))"
    unfolding set_eject_state_def Let_def w1_def by (rule refl)
  show ?thesis
  proof (cases "get_num_images w1 = 0")
    case True
    then show ?thesis using s i1 by simp
  next
    case False
    then have "0 < length (images w1)" by (auto simp: get_num_images_def)
    then have "unat (current_index w1) < length (images w1)"
      using i1 by (simp add: index_invariant_def)
    then have a: "at (images w1) (unat (get_image_index w1)) =
        Inr (images w1 ! unat (current_index w1))"
      by (simp add: at_def get_image_index_def)
    show ?thesis
    proof (cases ejected)
      case True
      then show ?thesis using s False a i1
          unmount_registry [of w1 e "images w1 ! unat (current_index w1)"]
        by (simp add: split_beta index_invariant_same)
    next
      case ne: False
      then show ?thesis using s False a mount_invariant [OF i1]
        by simp
    qed
  qed
qed

lemma exec_invariant:
  assumes "index_invariant w"
  shows "(\<forall>x. fst (exec e oper w) \<noteq> Throws x) \<and> index_invariant (snd (exec e oper w))"
proof (cases oper)
  case Add_image_index
  then show ?thesis using add_image_index_invariant [OF assms]
    by (simp add: exec_def split_beta)
next
  case (Set_image_index i)
  then show ?thesis using set_image_index_invariant [OF assms]
    by (simp add: exec_def split_beta)
next
  case (Replace_image_index i info)
  then show ?thesis using replace_image_index_invariant [OF assms]
    by (simp add: exec_def)
next
  case (Set_eject_state b)
  then show ?thesis using set_eject_state_invariant [OF assms]
    by (simp add: exec_def)
next
  case (Mount p)
  then show ?thesis using mount_invariant [OF assms]
    by (simp add: exec_def)
qed

lemma run_invariant:
  "index_invariant w \<Longrightarrow> \<exists>w'. run ops w = Inr w' \<and> index_invariant w'"
proof (induction ops arbitrary: w)
  case Nil
  then show ?case by simp
next
  case (Cons a ops)
  obtain e oper where a: "a = (e, oper)" by (cases a)
  obtain r w1 where x: "exec e oper w = (r, w1)" by (cases "exec e oper w")
  from exec_invariant [OF Cons.prems, of e oper] x
  have nt: "\<forall>x. r \<noteq> Throws x" and i1: "index_invariant w1" by simp_all
  then obtain b where "r = Returns b" by (cases r) auto
  then show ?case using a x Cons.IH [OF i1] by simp
qed

lemma initial_invariant: "index_invariant initial_world"
  by (simp add: index_invariant_def initial_world_def)

text \<open>
  C9. Whatever operations the frontend calls, in whatever order and whatever the
  collaborators answer, starting from the empty registry: no call throws, and
  afterwards the current index is below the number of images when there is an image,
  and is 0 when there is none.
\<close>

theorem run_keeps_index_invariant: "\<exists>w. run ops initial_world = Inr w \<and> index_invariant w"
  by (rule run_invariant [OF initial_invariant])

lemma run_session_one:
  "\<exists>t. run session_one initial_world =
     Inr \<lparr>images = [[]], current_index = 0, is_ejected = False, trace = t\<rparr>"
  by (simp add: session_one_def exec_def mount_def mount_floppy_image_def env_ok_def
      initial_world_def add_image_index_def set_image_index_def replace_image_index_def
      assign_at_def erase_def get_num_images_def get_image_index_def ext_game_img Let_def logs
      emit_def)

lemma run_session_two:
  "\<exists>t. run session_two initial_world =
     Inr \<lparr>images = [], current_index = 0, is_ejected = False, trace = t\<rparr>"
  by (simp add: session_two_def exec_def initial_world_def add_image_index_def
      set_image_index_def replace_image_index_def erase_def get_num_images_def
      get_image_index_def Let_def logs emit_def)

text \<open>
  Mount an image on the empty registry, add a slot, select it, remove the first image:
  one image is left and the index is 0. Add a slot and remove it: no image, index 0.
\<close>

theorem run_keeps_index_invariant_witness:
  "(\<exists>w. run session_one initial_world = Inr w \<and> length (images w) = 1 \<and>
        unat (current_index w) < length (images w)) \<and>
   (\<exists>w. run session_two initial_world = Inr w \<and> length (images w) = 0 \<and>
        current_index w = 0)"
  using run_keeps_index_invariant [of session_one]
    run_keeps_index_invariant [of session_two] run_session_one run_session_two
  by (auto simp: index_invariant_def)

section \<open>Properties of the core options\<close>

text \<open>
  C10. Both overloads of \<^verbatim>\<open>CoreOptions::option\<close> return the same pointer, and the
  overload that is not \<^verbatim>\<open>const\<close> leaves the object as it was. The pointer is null
  exactly when the map holds no definition's address under the key; when the map holds
  no null pointer, that is exactly when the key is not in the map. A pointer stored under
  the key is the one returned.
\<close>

theorem CoreOptions_option_lookup:
  "fst (CoreOptions_option c key) = CoreOptions_option_const c key \<and>
   snd (CoreOptions_option c key) = c \<and>
   (CoreOptions_option_const c key = nullptr \<longleftrightarrow>
      \<not> (\<exists>a. options_map c key = Some (Ptr a))) \<and>
   (nullptr \<notin> ran (options_map c) \<longrightarrow>
      (CoreOptions_option_const c key = nullptr \<longleftrightarrow> key \<notin> dom (options_map c))) \<and>
   (\<forall>p. options_map c key = Some p \<longrightarrow> CoreOptions_option_const c key = p)"
proof (cases "options_map c key")
  case None
  then show ?thesis
    by (auto simp: CoreOptions_option_def CoreOptions_option_const_def map_find_def Let_def)
next
  case (Some p)
  then have "p \<in> ran (options_map c)" by (auto simp: ran_def)
  then show ?thesis using Some
    by (cases p)
       (auto simp: CoreOptions_option_def CoreOptions_option_const_def map_find_def Let_def)
qed

text \<open>
  With the options \<^verbatim>\<open>overclock\<close> and \<^verbatim>\<open>frameskip\<close> registered, \<^verbatim>\<open>midi_device\<close> gives
  the null pointer and \<^verbatim>\<open>overclock\<close> gives the stored address.
\<close>

theorem CoreOptions_option_lookup_witness:
  "nullptr \<notin> ran (options_map example_options) \<and>
   ''midi_device'' \<notin> dom (options_map example_options) \<and>
   CoreOptions_option_const example_options ''midi_device'' = nullptr \<and>
   CoreOptions_option example_options ''midi_device'' = (nullptr, example_options) \<and>
   options_map example_options ''overclock'' = Some (Ptr 4096) \<and>
   CoreOptions_option_const example_options ''overclock'' = Ptr 4096 \<and>
   CoreOptions_option example_options ''overclock'' = (Ptr 4096, example_options)"
  using CoreOptions_option_lookup [of example_options "''midi_device''"]
    CoreOptions_option_lookup [of example_options "''overclock''"]
  by (auto simp: example_options_def ran_def prod_eq_iff split: if_splits)

section \<open>Properties of the thread switch\<close>

subsection \<open>The invariants hold along every interleaving\<close>

lemma ping_pong_Suc: "ping_pong s (Suc n) = ping_pong s n @ [if even n then s else other s]"
proof (induction n arbitrary: s)
  case 0
  then show ?case by simp
next
  case (Suc n)
  have "ping_pong s (Suc (Suc n)) = s # ping_pong (other s) (Suc n)" by simp
  also have "\<dots> = s # (ping_pong (other s) n @ [if even n then other s else other (other s)])"
    by (simp only: Suc.IH)
  finally show ?case by (cases s) auto
qed

lemma yields_simps [simp]:
  "yields [] = []"
  "yields (h @ [Yielded s]) = yields h @ [s]"
  "yields (h @ [Resumed s]) = yields h"
  "yields (h @ [Raised]) = yields h"
  "yields (h @ [CancelSet]) = yields h"
  by (simp_all add: yields_def)

lemma resumes_simps [simp]:
  "resumes [] = []"
  "resumes (h @ [Yielded s]) = resumes h"
  "resumes (h @ [Resumed s]) = resumes h @ [s]"
  "resumes (h @ [Raised]) = resumes h"
  "resumes (h @ [CancelSet]) = resumes h"
  by (simp_all add: resumes_def)

lemma raises_simps [simp]:
  "raises [] = 0"
  "raises (h @ [Yielded s]) = raises h"
  "raises (h @ [Resumed s]) = raises h"
  "raises (h @ [Raised]) = Suc (raises h)"
  "raises (h @ [CancelSet]) = raises h"
  by (simp_all add: raises_def)

lemma after_cancel_snoc:
  "after_cancel (h @ [x]) =
     (if CancelSet \<in> set h then after_cancel h @ [x] else if x = CancelSet then [x] else [])"
  by (auto simp: after_cancel_def dropWhile_append)

lemma after_cancel_none: "CancelSet \<notin> set h \<Longrightarrow> after_cancel h = []"
  by (auto simp: after_cancel_def)

lemma length_ping_pong [simp]: "length (ping_pong s n) = n"
  by (induction n arbitrary: s) simp_all

lemma initial_handoff_inv: "handoff_inv (initial_coordinator spin chk)"
  by (simp add: handoff_inv_def initial_coordinator_def)

lemma initial_cancel_inv: "cancel_inv (initial_coordinator spin chk)"
  by (simp add: cancel_inv_def initial_coordinator_def after_cancel_def)

lemma step_handoff_inv:
  assumes "handoff_inv c" "step a c = Some c'"
  shows "handoff_inv c'"
proof (cases a)
  case (Call s)
  then show ?thesis using assms
    apply (cases s; cases "run_state c")
    apply (auto simp: handoff_inv_def Let_def switchThread_enter_def must_cancel_def remember_def
        ping_pong_Suc simp del: ping_pong.simps(2) split: if_splits)
    done
next
  case (Wake s)
  then show ?thesis using assms
    apply (cases s; cases "run_state c")
    apply (auto simp: handoff_inv_def Let_def switchThread_wake_def must_cancel_def remember_def
        ping_pong_Suc simp del: ping_pong.simps(2) split: if_splits)
    done
next
  case (UseSpinlock b)
  then show ?thesis using assms
    by (cases "run_state c") (auto simp: handoff_inv_def Let_def useSpinlockThreadSync_def)
next
  case SetCancel
  then show ?thesis using assms
    by (cases "run_state c") (auto simp: handoff_inv_def Let_def set_cancel_token_def remember_def)
next
  case Catch
  then show ?thesis using assms
    by (cases "run_state c")
       (auto simp: handoff_inv_def Let_def emu_thread_entry_catch_def
         split: if_splits thread_pc.splits signal.splits)
qed

lemma waiting_only:
  "is_waiting p \<Longrightarrow> \<not> is_unwinding p \<and> p \<noteq> Exited \<and> p \<noteq> Running \<and> p \<noteq> Crashed"
  by (cases p) simp_all

lemma unwinding_only:
  "is_unwinding p \<Longrightarrow> p \<noteq> Exited \<and> p \<noteq> Running \<and> p \<noteq> Crashed"
  by (cases p) simp_all

lemma step_cancel_inv:
  assumes "cancel_inv c" "step a c = Some c'"
  shows "cancel_inv c'"
proof (cases a)
  case (Call s)
  then show ?thesis using assms
    by (cases s)
       (auto simp: cancel_inv_def switchThread_enter_def must_cancel_def remember_def
          after_cancel_snoc dest: waiting_only split: if_splits)
next
  case (Wake s)
  then show ?thesis using assms
    by (cases s)
       (auto simp: cancel_inv_def switchThread_wake_def must_cancel_def remember_def
          after_cancel_snoc after_cancel_none dest: waiting_only split: if_splits)
next
  case (UseSpinlock b)
  then show ?thesis using assms
    by (auto simp: cancel_inv_def useSpinlockThreadSync_def)
next
  case SetCancel
  then show ?thesis using assms
    by (auto simp: cancel_inv_def set_cancel_token_def remember_def after_cancel_snoc
        after_cancel_none)
next
  case Catch
  then show ?thesis using assms
    by (auto simp: cancel_inv_def emu_thread_entry_catch_def
         dest: unwinding_only split: if_splits thread_pc.splits signal.splits)
qed

lemma steps_handoff_inv:
  "handoff_inv c \<Longrightarrow> steps acts c = Some c' \<Longrightarrow> handoff_inv c'"
proof (induction acts arbitrary: c)
  case Nil
  then show ?case by simp
next
  case (Cons a acts)
  then obtain c1 where s: "step a c = Some c1" and r: "steps acts c1 = Some c'"
    by (auto split: option.splits)
  from step_handoff_inv [OF Cons.prems(1) s] r show ?case by (rule Cons.IH)
qed

lemma steps_cancel_inv:
  "cancel_inv c \<Longrightarrow> steps acts c = Some c' \<Longrightarrow> cancel_inv c'"
proof (induction acts arbitrary: c)
  case Nil
  then show ?case by simp
next
  case (Cons a acts)
  then obtain c1 where s: "step a c = Some c1" and r: "steps acts c1 = Some c'"
    by (auto split: option.splits)
  from step_cancel_inv [OF Cons.prems(1) s] r show ?case by (rule Cons.IH)
qed

subsection \<open>Strict alternation\<close>

text \<open>
  C1, on the model of the switch coordinator. After any interleaving of calls to
  \<^verbatim>\<open>switchThread()\<close>, wake-ups, changes of the wait strategy and the setting of the
  token, from a session started with either strategy: the two sides never run at the
  same time, and the side that does not own execution waits. The sides that handed over
  are Host, Emulation, Host, ... and the sides that were resumed are Emulation, Host,
  Emulation, ...; there are as many resumptions as handoffs or one less, so no handoff
  is skipped; and after \<open>N\<close> handoffs the host owns execution when \<open>N\<close> is even and the
  emulation when \<open>N\<close> is odd. As long as the token is not set, the owner runs, or it
  waits and its next wake-up resumes it.
\<close>

theorem switchThread_strict_alternation:
  assumes "steps acts (initial_coordinator spin chk) = Some c"
  shows "\<not> (host_pc c = Running \<and> emu_pc c = Running) \<and>
         is_waiting (pc_of (other (owner (run_state c))) c) \<and>
         yields (history c) = ping_pong Host (length (yields (history c))) \<and>
         resumes (history c) = ping_pong Emulation (length (resumes (history c))) \<and>
         length (resumes (history c)) \<le> length (yields (history c)) \<and>
         length (yields (history c)) \<le> Suc (length (resumes (history c))) \<and>
         run_state c =
           (if even (length (yields (history c))) then HostOwns else EmulationOwns) \<and>
         (\<not> cancel_token c \<longrightarrow>
            pc_of (owner (run_state c)) c = Running \<or>
            (is_waiting (pc_of (owner (run_state c)) c) \<and>
             (\<exists>c'. step (Wake (owner (run_state c))) c = Some c' \<and>
                   pc_of (owner (run_state c)) c' = Running)))"
proof -
  have inv: "handoff_inv c"
    using steps_handoff_inv [OF initial_handoff_inv assms] .
  show ?thesis
  proof (cases "run_state c")
    case HostOwns
    then show ?thesis using inv
      by (auto simp: handoff_inv_def Let_def switchThread_wake_def must_cancel_def remember_def
          split: if_splits)
  next
    case EmulationOwns
    then show ?thesis using inv
      by (auto simp: handoff_inv_def Let_def switchThread_wake_def must_cancel_def remember_def
          split: if_splits)
  qed
qed

subsection \<open>Cancellation\<close>

text \<open>
  C2, on the model of the switch coordinator. After any interleaving, from the moment
  the token was set no call to \<^verbatim>\<open>switchThread()\<close> from the emulation side has returned;
  when the emulation side is woken for its turn with the token set, it raises
  \<^verbatim>\<open>EmuThreadCanceled\<close>. The signal is raised at most once and caught by the entry point
  at most once; the thread has exited exactly when the entry point has caught it once;
  it never unwinds with another signal and never gets past the entry point. Once the
  signal is raised, the entry point catches it and the thread exits.
\<close>

theorem cancellation_raised_and_observed_once:
  assumes "steps acts (initial_coordinator spin chk) = Some c"
  shows "Resumed Emulation \<notin> set (after_cancel (history c)) \<and>
         raises (history c) \<le> 1 \<and> observed c \<le> 1 \<and>
         (emu_pc c = Exited \<longleftrightarrow> observed c = 1) \<and>
         emu_pc c \<noteq> Crashed \<and> emu_pc c \<noteq> Unwinding GenericError \<and>
         (cancel_token c \<and> is_waiting (emu_pc c) \<and> run_state c = EmulationOwns \<longrightarrow>
            (\<exists>c'. step (Wake Emulation) c = Some c' \<and>
                  emu_pc c' = Unwinding EmuThreadCanceled)) \<and>
         (is_unwinding (emu_pc c) \<longrightarrow>
            (\<exists>c'. step Catch c = Some c' \<and> emu_pc c' = Exited \<and> observed c' = 1))"
proof -
  have inv: "cancel_inv c"
    using steps_cancel_inv [OF initial_cancel_inv assms] .
  then show ?thesis
    by (auto simp: cancel_inv_def switchThread_wake_def must_cancel_def remember_def
        emu_thread_entry_catch_def split: if_splits thread_pc.splits signal.splits)
qed

lemmas thread_defs = initial_coordinator_def switchThread_enter_def switchThread_wake_def
  useSpinlockThreadSync_def set_cancel_token_def emu_thread_entry_catch_def must_cancel_def
  remember_def

lemma run_handoff_session:
  "steps handoff_session (initial_coordinator False False) =
     Some \<lparr>run_state = HostOwns, use_spinlock = True, cancel_token = False,
           entry_check = False, host_pc = Running, emu_pc = Waiting True,
           history = [Yielded Host, Resumed Emulation, Yielded Emulation, Resumed Host],
           observed = 0\<rparr>"
  by (simp add: handoff_session_def thread_defs)

text \<open>
  Two handoffs, the first waited for by blocking and the second by spinning: the host
  runs again, the emulation waits, and each side has handed over and been resumed once.
\<close>

theorem switchThread_strict_alternation_witness:
  "(\<exists>c. steps handoff_session (initial_coordinator False False) = Some c \<and>
        host_pc c = Running \<and> emu_pc c = Waiting True \<and> \<not> cancel_token c \<and>
        yields (history c) = [Host, Emulation] \<and>
        resumes (history c) = [Emulation, Host] \<and>
        run_state c = HostOwns)"
  using switchThread_strict_alternation [OF run_handoff_session] run_handoff_session
  by (simp add: yields_def resumes_def)

lemma run_shutdown_request:
  "steps shutdown_request (initial_coordinator False False) =
     Some \<lparr>run_state = EmulationOwns, use_spinlock = False, cancel_token = True,
           entry_check = False, host_pc = Waiting False, emu_pc = Waiting False,
           history = [Yielded Host, Resumed Emulation, Yielded Emulation, Resumed Host,
                      CancelSet, Yielded Host],
           observed = 0\<rparr>"
  by (simp add: shutdown_request_def thread_defs)

lemma run_shutdown_wake:
  "steps (shutdown_request @ [Wake Emulation]) (initial_coordinator False False) =
     Some \<lparr>run_state = EmulationOwns, use_spinlock = False, cancel_token = True,
           entry_check = False, host_pc = Waiting False,
           emu_pc = Unwinding EmuThreadCanceled,
           history = [Yielded Host, Resumed Emulation, Yielded Emulation, Resumed Host,
                      CancelSet, Yielded Host, Raised],
           observed = 0\<rparr>"
  by (simp add: shutdown_request_def thread_defs)

lemma run_shutdown_catch:
  "steps (shutdown_request @ [Wake Emulation, Catch]) (initial_coordinator False False) =
     Some \<lparr>run_state = EmulationOwns, use_spinlock = False, cancel_token = True,
           entry_check = False, host_pc = Waiting False, emu_pc = Exited,
           history = [Yielded Host, Resumed Emulation, Yielded Emulation, Resumed Host,
                      CancelSet, Yielded Host, Raised],
           observed = 1\<rparr>"
  by (simp add: shutdown_request_def thread_defs)

text \<open>
  A shutdown: after two handoffs the token is set and the host hands over once more.
  The emulation side wakes, raises the signal, and its entry point catches it once.
\<close>

theorem cancellation_raised_and_observed_once_witness:
  "(\<exists>c. steps shutdown_request (initial_coordinator False False) = Some c \<and>
        cancel_token c \<and> is_waiting (emu_pc c) \<and> run_state c = EmulationOwns \<and>
        (\<exists>c'. step (Wake Emulation) c = Some c' \<and>
              emu_pc c' = Unwinding EmuThreadCanceled)) \<and>
   (\<exists>c. steps (shutdown_request @ [Wake Emulation]) (initial_coordinator False False) =
          Some c \<and>
        is_unwinding (emu_pc c) \<and> raises (history c) = 1 \<and>
        (\<exists>c'. step Catch c = Some c' \<and> emu_pc c' = Exited \<and> observed c' = 1)) \<and>
   (\<exists>c. steps (shutdown_request @ [Wake Emulation, Catch])
          (initial_coordinator False False) = Some c \<and>
        emu_pc c = Exited \<and> observed c = 1 \<and>
        after_cancel (history c) = [CancelSet, Yielded Host, Raised])"
  using cancellation_raised_and_observed_once [OF run_shutdown_request]
    cancellation_raised_and_observed_once [OF run_shutdown_wake]
    cancellation_raised_and_observed_once [OF run_shutdown_catch]
    run_shutdown_request run_shutdown_wake run_shutdown_catch
  by (simp add: after_cancel_def raises_def)

end
